theory Spec2Isabelle
  imports Main "HOL-Library.Sublist"
begin

section \<open>The program-log event parser\<close>

text \<open>
  The embedding follows the compiled module \<open>event.js\<close> (the second module of
  \<open>src/ts/dist/esm/index.js\<close>): the classes \<open>EventParser\<close>,
  \<open>ExecutionContext\<close> and \<open>LogScanner\<close>. A JavaScript string is a \<open>string\<close> (a list
  of characters, one per code unit; the model covers the code units below 256, where the
  line terminators are line feed and carriage return). The event coder is a parameter
  \<open>decode :: string \<Rightarrow> 'e option\<close>, with \<open>None\<close> for JavaScript's \<open>null\<close>. The two
  exceptions the module can raise are values of \<open>error\<close>.
\<close>

subsection \<open>Errors\<close>

text \<open>
  \<open>TypeError\<close>: indexing the \<open>null\<close> that \<open>RegExp.exec\<close> returns on no match (the
  specification calls it MalformedLogStream). \<open>AssertionError\<close>: a failed
  \<open>assert.ok\<close> (the specification calls it StackUnderflow).
\<close>

datatype error = TypeError | AssertionError

subsection \<open>The regular expressions\<close>

text \<open>
  Both regular expressions have the shape \<open>^Program (.*)LIT.*$\<close> with neither the
  \<open>m\<close> nor the \<open>s\<close> flag: \<open>^\<close> and \<open>$\<close> match at the two ends of the input only
  and a dot matches every character but a line terminator.
\<close>

definition line_terminator :: "char \<Rightarrow> bool" where
  "line_terminator c = (c = CHR 0x0A \<or> c = CHR 0x0D)"

text \<open>\<open>.*$\<close>: the rest of the input, which a run of dots must cover.\<close>

definition dots :: "string \<Rightarrow> bool" where
  "dots s = list_all (\<lambda>c. \<not> line_terminator c) s"

text \<open>
  \<open>(.*)LIT.*$\<close> matched at the start of \<open>s\<close>, returning capture group 1. The group
  is greedy: the matcher first tries to extend it by the next character (when a dot matches
  it) and falls back to the empty continuation only when the longer tries fail.
\<close>

primrec dotstar_capture :: "string \<Rightarrow> string \<Rightarrow> string option" where
  "dotstar_capture lit [] = (if lit = [] then Some [] else None)"
| "dotstar_capture lit (c # cs) =
     (case (if line_terminator c then None else dotstar_capture lit cs) of
        Some x \<Rightarrow> Some (c # x)
      | None \<Rightarrow>
          if prefix lit (c # cs) \<and> dots (drop (length lit) (c # cs)) then Some [] else None)"

text \<open>\<open>/^Program (.*) invoke.*$/g.exec(log)\<close>: group 1, or \<open>None\<close> for \<open>null\<close>.\<close>

definition exec_invoke :: "string \<Rightarrow> string option" where
  "exec_invoke log =
     (if prefix ''Program '' log
      then dotstar_capture '' invoke'' (drop (length ''Program '') log)
      else None)"

text \<open>\<open>logStart.match(/^Program (.*) consumed .*$/g) !== null\<close>.\<close>

definition match_consumed :: "string \<Rightarrow> bool" where
  "match_consumed logStart =
     (prefix ''Program '' logStart \<and>
      dotstar_capture '' consumed '' (drop (length ''Program '') logStart) \<noteq> None)"

subsection \<open>\<open>LogScanner\<close>\<close>

text \<open>\<open>next()\<close>: the returned line (\<open>None\<close> for \<open>null\<close>) and the new \<open>this.logs\<close>.\<close>

definition scanner_next :: "string list \<Rightarrow> string option \<times> string list" where
  "scanner_next ls = (case ls of [] \<Rightarrow> (None, []) | l # rest \<Rightarrow> (Some l, rest))"

subsection \<open>\<open>ExecutionContext\<close>\<close>

text \<open>
  The stack is the array \<open>this.stack\<close>, bottom first. The constructor receives what
  \<open>logScanner.next()\<close> returned; \<open>exec\<close> converts \<open>null\<close> to the string \<open>null\<close>.
\<close>

definition ExecutionContext :: "string option \<Rightarrow> error + string list" where
  "ExecutionContext log =
     (case exec_invoke (case log of None \<Rightarrow> ''null'' | Some l \<Rightarrow> l) of
        None \<Rightarrow> Inl TypeError
      | Some program \<Rightarrow> Inr [program])"

definition program :: "string list \<Rightarrow> error + string" where
  "program stk = (if length stk > 0 then Inr (last stk) else Inl AssertionError)"

definition push :: "string list \<Rightarrow> string \<Rightarrow> string list" where
  "push stk newProgram = stk @ [newProgram]"

definition pop :: "string list \<Rightarrow> error + string list" where
  "pop stk = (if length stk > 0 then Inr (butlast stk) else Inl AssertionError)"

subsection \<open>\<open>EventParser\<close>\<close>

definition LOG_START_INDEX :: nat where
  "LOG_START_INDEX = length ''Program log: ''"

text \<open>\<open>log.split(":")[0]\<close>: the line up to its first colon, all of it when it has none.\<close>

definition split_first :: "string \<Rightarrow> string" where
  "split_first log = takeWhile (\<lambda>c. c \<noteq> CHR '':'') log"

text \<open>\<open>handleSystemLog\<close> returns the pair \<open>[newProgram, didPop]\<close>.\<close>

definition handleSystemLog :: "string \<Rightarrow> string \<Rightarrow> string option \<times> bool" where
  "handleSystemLog programId log =
     (let logStart = split_first log in
      if prefix (''Program '' @ programId @ '' invoke'') logStart then (Some programId, False)
      else if sublist ''invoke'' logStart then (Some ''cpi'', False)
      else if match_consumed logStart then (None, True)
      else (None, False))"

text \<open>
  \<open>handleProgramLog\<close> and \<open>handleLog\<close> return the triple \<open>[event, newProgram, didPop]\<close>.
  The list \<open>calls\<close> records the arguments of \<open>this.coder.events.decode\<close> in the order
  of the calls; a handler returns it extended by the call it made.
\<close>

definition handleProgramLog ::
  "(string \<Rightarrow> 'e option) \<Rightarrow> string \<Rightarrow> string \<Rightarrow> string list
    \<Rightarrow> ('e option \<times> string option \<times> bool) \<times> string list" where
  "handleProgramLog decode programId log calls =
     (if prefix ''Program log:'' log then
        (let logStr = drop LOG_START_INDEX log;
             event = decode logStr
         in ((event, None, False), calls @ [logStr]))
      else ((None, handleSystemLog programId log), calls))"

definition handleLog ::
  "(string \<Rightarrow> 'e option) \<Rightarrow> string \<Rightarrow> string list \<Rightarrow> string \<Rightarrow> string list
    \<Rightarrow> error + ('e option \<times> string option \<times> bool) \<times> string list" where
  "handleLog decode programId stk log calls =
     (case program stk of
        Inl err \<Rightarrow> Inl err
      | Inr executing \<Rightarrow>
          if executing = programId then Inr (handleProgramLog decode programId log calls)
          else Inr ((None, handleSystemLog programId log), calls))"

text \<open>
  The state of one \<open>parseLogs\<close> call: the scanner's unread lines, the execution stack,
  the events passed to \<open>callback\<close> so far and the payloads passed to the coder so far.
\<close>

record 'e parser =
  logs :: "string list"
  stack :: "string list"
  emitted :: "'e list"
  decoded :: "string list"

text \<open>
  The body of the \<open>while\<close> loop for the line \<open>log\<close>, already read from the scanner.
  An exception leaves the state as it was when it was raised. \<open>if (newProgram)\<close> is
  false for \<open>null\<close> and for the empty string.
\<close>

definition parseLogs_body ::
  "(string \<Rightarrow> 'e option) \<Rightarrow> string \<Rightarrow> 'e parser \<Rightarrow> string \<Rightarrow> error \<times> 'e parser + 'e parser" where
  "parseLogs_body decode programId s log =
     (case handleLog decode programId (stack s) log (decoded s) of
        Inl err \<Rightarrow> Inl (err, s)
      | Inr ((event, newProgram, didPop), calls) \<Rightarrow>
          (let s1 = s\<lparr>decoded := calls\<rparr>;
               s2 = (case event of None \<Rightarrow> s1 | Some e \<Rightarrow> s1\<lparr>emitted := emitted s1 @ [e]\<rparr>);
               s3 = (case newProgram of
                       None \<Rightarrow> s2
                     | Some p \<Rightarrow> if p \<noteq> [] then s2\<lparr>stack := push (stack s2) p\<rparr> else s2)
           in if didPop then
                (case pop (stack s3) of
                   Inl err \<Rightarrow> Inl (err, s3)
                 | Inr stk \<Rightarrow> Inr (s3\<lparr>stack := stk, logs := snd (scanner_next (logs s3))\<rparr>))
              else Inr s3))"

text \<open>
  The \<open>while\<close> loop: each round reads the next line and stops at \<open>null\<close>. The result
  is the exception that ended the loop, if any, and the state reached.
\<close>

function parseLogs_loop ::
  "(string \<Rightarrow> 'e option) \<Rightarrow> string \<Rightarrow> 'e parser \<Rightarrow> error option \<times> 'e parser" where
  "parseLogs_loop decode programId s =
     (case scanner_next (logs s) of
        (None, _) \<Rightarrow> (None, s)
      | (Some log, rest) \<Rightarrow>
          (case parseLogs_body decode programId (s\<lparr>logs := rest\<rparr>) log of
             Inl (err, s') \<Rightarrow> (Some err, s')
           | Inr s' \<Rightarrow> parseLogs_loop decode programId s'))"
  by pat_completeness auto
termination
proof (relation "measure (\<lambda>(decode, programId, s). length (logs s))")
  show "wf (measure (\<lambda>(decode, programId, s). length (logs s)))" by simp
next
  fix decode :: "string \<Rightarrow> 'e option" and programId s x1 x2 log s'
  assume read: "(x1, x2) = scanner_next (logs s)" "x1 = Some log"
    and body: "parseLogs_body decode programId (s\<lparr>logs := x2\<rparr>) log = Inr s'"
  from read have "length x2 < length (logs s)"
    by (auto simp: scanner_next_def split: list.splits)
  moreover from body have "length (logs s') \<le> length x2"
    by (auto simp: parseLogs_body_def scanner_next_def Let_def
        split: sum.splits prod.splits option.splits if_splits list.splits)
  ultimately show "((decode, programId, s'), (decode, programId, s)) \<in>
    measure (\<lambda>(decode, programId, s). length (logs s))"
    by simp
qed

text \<open>
  \<open>parseLogs(logs, callback)\<close>. When the constructor of \<open>ExecutionContext\<close> throws, no
  stack exists; the state returned then has the empty list in its place.
\<close>

definition parseLogs ::
  "(string \<Rightarrow> 'e option) \<Rightarrow> string \<Rightarrow> string list \<Rightarrow> error option \<times> 'e parser" where
  "parseLogs decode programId input =
     (case scanner_next input of
        (first, rest) \<Rightarrow>
          (case ExecutionContext first of
             Inl err \<Rightarrow> (Some err, \<lparr>logs = rest, stack = [], emitted = [], decoded = []\<rparr>)
           | Inr stk \<Rightarrow>
               parseLogs_loop decode programId
                 \<lparr>logs = rest, stack = stk, emitted = [], decoded = []\<rparr>))"

subsection \<open>The depth of the stack along the lines\<close>


section \<open>Properties of the matchers\<close>

declare parseLogs_loop.simps [simp del]

text \<open>
  What a match of \<open>(.*)LIT.*$\<close> means: the input splits into the group, the literal
  and a rest, the group and the rest free of line terminators; any such split makes the
  matcher succeed, and the group returned is the longest one.
\<close>

lemma dotstar_capture_sound:
  "dotstar_capture lit s = Some x \<Longrightarrow> \<exists>t. s = x @ lit @ t \<and> dots x \<and> dots t"
proof (induction s arbitrary: x)
  case Nil
  then show ?case by (auto simp: dots_def split: if_splits)
next
  case (Cons c cs)
  show ?case
  proof (cases "if line_terminator c then None else dotstar_capture lit cs")
    case None
    with Cons.prems have "prefix lit (c # cs)" "dots (drop (length lit) (c # cs))" "x = []"
      by (auto split: if_splits)
    then show ?thesis
      by (auto simp: prefix_def dots_def)
  next
    case (Some y)
    then have nt: "\<not> line_terminator c" and y: "dotstar_capture lit cs = Some y"
      by (auto split: if_splits)
    from Cons.prems Some have x: "x = c # y" by simp
    from Cons.IH[OF y] obtain t where "cs = y @ lit @ t" "dots y" "dots t" by blast
    with nt x show ?thesis by (auto simp: dots_def)
  qed
qed

lemma dotstar_capture_empty_group:
  "prefix lit s \<Longrightarrow> dots (drop (length lit) s) \<Longrightarrow> dotstar_capture lit s \<noteq> None"
  by (cases s) (auto split: option.splits)

lemma dotstar_capture_complete:
  "dots x \<Longrightarrow> dots t \<Longrightarrow> dotstar_capture lit (x @ lit @ t) \<noteq> None"
proof (induction x)
  case Nil
  then show ?case
    using dotstar_capture_empty_group[of lit "lit @ t"] by simp
next
  case (Cons c x)
  then show ?case by (auto simp: dots_def split: option.splits)
qed

lemma dotstar_capture_greedy:
  "dotstar_capture lit s = Some x \<Longrightarrow> s = y @ lit @ t \<Longrightarrow> dots y \<Longrightarrow> dots t
    \<Longrightarrow> length y \<le> length x"
proof (induction s arbitrary: x y)
  case Nil
  then show ?case by simp
next
  case (Cons c cs)
  show ?case
  proof (cases y)
    case Nil
    then show ?thesis by simp
  next
    case (Cons d y')
    with Cons.prems have c: "c = d" "cs = y' @ lit @ t" "dots y'" "\<not> line_terminator c"
      by (auto simp: dots_def)
    then have "dotstar_capture lit cs \<noteq> None"
      using dotstar_capture_complete[of y' t lit] Cons.prems by simp
    then obtain x' where x': "dotstar_capture lit cs = Some x'" by blast
    with Cons.prems c have "x = c # x'" by simp
    moreover have "length y' \<le> length x'"
      using Cons.IH[OF x' c(2) c(3) Cons.prems(4)] .
    ultimately show ?thesis using Cons by simp
  qed
qed

lemma dots_append: "dots (a @ b) \<longleftrightarrow> dots a \<and> dots b"
  by (simp add: dots_def)

lemma dots_invoke: "dots ''Program ''" "dots '' invoke''"
  by (simp_all add: dots_def line_terminator_def)

lemma exec_invoke_Some:
  assumes "exec_invoke log = Some x"
  shows "\<exists>t. log = ''Program '' @ x @ '' invoke'' @ t \<and> dots log"
proof -
  from assms obtain r where r: "log = ''Program '' @ r" "dotstar_capture '' invoke'' r = Some x"
    by (auto simp: exec_invoke_def prefix_def split: if_splits)
  from dotstar_capture_sound[OF r(2)] obtain t
    where t: "r = x @ '' invoke'' @ t" "dots x" "dots t" by blast
  from t have "dots r" using dots_invoke(2) by (simp only: dots_append)
  with r(1) have "dots log" using dots_invoke(1) by (simp only: dots_append)
  with r(1) t(1) show ?thesis by simp
qed

lemma exec_invoke_matches:
  "exec_invoke log \<noteq> None \<longleftrightarrow>
     dots log \<and> (\<exists>x t. log = ''Program '' @ x @ '' invoke'' @ t)"
proof
  assume "exec_invoke log \<noteq> None"
  then obtain x where "exec_invoke log = Some x" by blast
  from exec_invoke_Some[OF this] show "dots log \<and> (\<exists>x t. log = ''Program '' @ x @ '' invoke'' @ t)"
    by blast
next
  assume "dots log \<and> (\<exists>x t. log = ''Program '' @ x @ '' invoke'' @ t)"
  then obtain x t where l: "log = ''Program '' @ (x @ '' invoke'' @ t)" and d: "dots log"
    by auto
  from d l have "dots x" "dots t" by (simp_all only: dots_append)
  then have "dotstar_capture '' invoke'' (x @ '' invoke'' @ t) \<noteq> None"
    by (rule dotstar_capture_complete)
  with l show "exec_invoke log \<noteq> None"
    by (simp add: exec_invoke_def)
qed

lemma exec_invoke_sublist: "exec_invoke log = Some x \<Longrightarrow> sublist x log"
proof -
  assume "exec_invoke log = Some x"
  from exec_invoke_Some[OF this] obtain t where "log = ''Program '' @ x @ ('' invoke'' @ t)"
    by auto
  then show ?thesis unfolding sublist_def by blast
qed

text \<open>A line that starts with \<open>Program log:\<close> is no marker for the system classification.\<close>

lemma program_log_head:
  "prefix ''Program log:'' log \<Longrightarrow> split_first log = ''Program log''"
  by (auto simp: prefix_def split_first_def)

lemma not_consumed_program_log: "\<not> match_consumed ''Program log''"
  by (simp add: match_consumed_def dots_def line_terminator_def)


lemma handleSystemLog_cases:
  "handleSystemLog programId log = (Some programId, False) \<or>
   handleSystemLog programId log = (Some ''cpi'', False) \<or>
   handleSystemLog programId log = (None, True) \<or>
   handleSystemLog programId log = (None, False)"
  by (simp add: handleSystemLog_def Let_def)

lemma target_invoke_sublist:
  assumes "prefix (''Program '' @ programId @ '' invoke'') (split_first log)"
  shows "sublist programId log" "sublist ''invoke'' (split_first log)"
proof -
  from assms obtain t where t: "split_first log = (''Program '' @ programId @ '' '') @ ''invoke'' @ t"
    by (auto simp: prefix_def)
  then show "sublist ''invoke'' (split_first log)" unfolding sublist_def by blast
  have "prefix (split_first log) log"
    unfolding split_first_def by (rule takeWhile_is_prefix)
  with assms have "prefix (''Program '' @ programId @ '' invoke'') log"
    by (rule prefix_order.trans)
  then obtain u where "log = ''Program '' @ programId @ ('' invoke'' @ u)"
    by (auto simp: prefix_def)
  then show "sublist programId log" unfolding sublist_def by blast
qed

lemma handleSystemLog_push:
  assumes "handleSystemLog programId log = (Some q, didPop)"
  shows "q = ''cpi'' \<or> (q = programId \<and> sublist programId log)"
proof (cases "prefix (''Program '' @ programId @ '' invoke'') (split_first log)")
  case True
  from target_invoke_sublist(1)[OF True] True assms show ?thesis
    by (simp add: handleSystemLog_def Let_def)
next
  case False
  with assms show ?thesis by (auto simp: handleSystemLog_def Let_def split: if_splits)
qed

lemma handleSystemLog_pop:
  assumes "\<not> sublist ''invoke'' (split_first log)" "match_consumed (split_first log)"
  shows "handleSystemLog programId log = (None, True)"
  using assms target_invoke_sublist(2)[of programId log]
  by (auto simp: handleSystemLog_def Let_def)

section \<open>One round of the loop\<close>

lemma body_empty_stack:
  "stack s = [] \<Longrightarrow> parseLogs_body decode programId s log = Inl (AssertionError, s)"
  by (simp add: parseLogs_body_def handleLog_def program_def)

lemma body_program_log:
  assumes "stack s \<noteq> []" "last (stack s) = programId" "prefix ''Program log:'' log"
  shows "parseLogs_body decode programId s log =
    Inr (s\<lparr>decoded := decoded s @ [drop LOG_START_INDEX log],
           emitted := emitted s @ List.map_filter decode [drop LOG_START_INDEX log]\<rparr>)"
  using assms
  by (simp add: parseLogs_body_def handleLog_def program_def handleProgramLog_def Let_def
      List.map_filter_simps split: option.splits)

lemma handleLog_system:
  assumes "stk \<noteq> []" "\<not> (last stk = programId \<and> prefix ''Program log:'' log)"
  shows "handleLog decode programId stk log calls =
    Inr ((None, handleSystemLog programId log), calls)"
  using assms by (auto simp: handleLog_def program_def handleProgramLog_def)

lemma body_push:
  assumes "stack s \<noteq> []" "\<not> (last (stack s) = programId \<and> prefix ''Program log:'' log)"
    "handleSystemLog programId log = (Some q, False)" "q \<noteq> []"
  shows "parseLogs_body decode programId s log = Inr (s\<lparr>stack := stack s @ [q]\<rparr>)"
  using assms by (simp add: parseLogs_body_def handleLog_system push_def)

lemma body_pop:
  assumes "stack s \<noteq> []" "\<not> (last (stack s) = programId \<and> prefix ''Program log:'' log)"
    "handleSystemLog programId log = (None, True)"
  shows "parseLogs_body decode programId s log =
    Inr (s\<lparr>stack := butlast (stack s), logs := tl (logs s)\<rparr>)"
  using assms
  by (simp add: parseLogs_body_def handleLog_system pop_def scanner_next_def split: list.splits)

lemma body_noop:
  assumes "stack s \<noteq> []" "\<not> (last (stack s) = programId \<and> prefix ''Program log:'' log)"
    "handleSystemLog programId log = (None, False) \<or>
     handleSystemLog programId log = (Some [], False)"
  shows "parseLogs_body decode programId s log = Inr s"
  using assms by (auto simp: parseLogs_body_def handleLog_system)

text \<open>The three things the system classification can make a round do.\<close>

lemma body_system:
  assumes "stack s \<noteq> []" "\<not> (last (stack s) = programId \<and> prefix ''Program log:'' log)"
  obtains (push) q where "handleSystemLog programId log = (Some q, False)" "q \<noteq> []"
      "parseLogs_body decode programId s log = Inr (s\<lparr>stack := stack s @ [q]\<rparr>)"
    | (pop) "handleSystemLog programId log = (None, True)"
      "parseLogs_body decode programId s log =
         Inr (s\<lparr>stack := butlast (stack s), logs := tl (logs s)\<rparr>)"
    | (noop) "parseLogs_body decode programId s log = Inr s"
proof -
  from handleSystemLog_cases[of programId log]
  consider (a) q where "handleSystemLog programId log = (Some q, False)" "q \<noteq> []"
    | (b) "handleSystemLog programId log = (None, True)"
    | (c) "handleSystemLog programId log = (None, False) \<or>
           handleSystemLog programId log = (Some [], False)"
    by (cases "programId = []") auto
  then show thesis
  proof cases
    case a
    from a body_push[OF assms a] show ?thesis by (rule push)
  next
    case b
    from b body_pop[OF assms b] show ?thesis by (rule pop)
  next
    case c
    from body_noop[OF assms c] show ?thesis by (rule noop)
  qed
qed

lemma body_returns:
  assumes "stack s \<noteq> []"
  shows "\<exists>s'. parseLogs_body decode programId s log = Inr s'"
proof (cases "last (stack s) = programId \<and> prefix ''Program log:'' log")
  case True
  with assms show ?thesis by (simp add: body_program_log)
next
  case False
  with assms show ?thesis by (rule body_system) blast+
qed

lemma body_throws:
  assumes "parseLogs_body decode programId s log = Inl (err, s')"
  shows "err = AssertionError \<and> s' = s \<and> stack s = []"
proof (cases "stack s = []")
  case True
  with assms show ?thesis by (simp add: body_empty_stack)
next
  case False
  from body_returns[OF False, of decode programId log] assms show ?thesis by simp
qed

lemma body_logs:
  assumes "parseLogs_body decode programId s log = Inr s'"
  shows "logs s' = logs s \<or> logs s' = tl (logs s)"
proof -
  from assms have ne: "stack s \<noteq> []" by (auto simp: body_empty_stack)
  show ?thesis
  proof (cases "last (stack s) = programId \<and> prefix ''Program log:'' log")
    case True
    with ne assms show ?thesis by (auto simp: body_program_log)
  next
    case False
    show ?thesis
      by (rule body_system[OF ne False, of decode]) (use assms in auto)
  qed
qed

text \<open>
  What a round adds to the two traces: nothing, or the payload of the line (when the
  target is on top of the stack and the line starts with \<open>Program log:\<close>) and the
  event, if any, that the coder makes of it.
\<close>

lemma body_trace:
  assumes "parseLogs_body decode programId s log = Inr s' \<or>
           parseLogs_body decode programId s log = Inl (err, s')"
  shows "\<exists>xs. (xs = [] \<or> xs = [log] \<and> prefix ''Program log:'' log \<and>
                 stack s \<noteq> [] \<and> last (stack s) = programId) \<and>
           decoded s' = decoded s @ map (drop LOG_START_INDEX) xs \<and>
           emitted s' = emitted s @ List.map_filter decode (map (drop LOG_START_INDEX) xs)"
proof -
  consider (empty) "stack s = []"
    | (own) "stack s \<noteq> []" "last (stack s) = programId \<and> prefix ''Program log:'' log"
    | (system) "stack s \<noteq> []" "\<not> (last (stack s) = programId \<and> prefix ''Program log:'' log)"
    by blast
  then show ?thesis
  proof cases
    case empty
    with assms have "s' = s" by (simp add: body_empty_stack)
    then show ?thesis by (intro exI[of _ "[]"]) (simp add: List.map_filter_simps)
  next
    case own
    with assms have "s' = s\<lparr>decoded := decoded s @ [drop LOG_START_INDEX log],
           emitted := emitted s @ List.map_filter decode [drop LOG_START_INDEX log]\<rparr>"
      by (simp add: body_program_log)
    with own show ?thesis by (intro exI[of _ "[log]"]) simp
  next
    case system
    have "emitted s' = emitted s \<and> decoded s' = decoded s"
      by (rule body_system[OF system, of decode]) (use assms in auto)
    then show ?thesis by (intro exI[of _ "[]"]) (simp add: List.map_filter_simps)
  qed
qed

section \<open>The loop\<close>

lemma loop_end: "logs s = [] \<Longrightarrow> parseLogs_loop decode programId s = (None, s)"
  by (simp add: parseLogs_loop.simps scanner_next_def)

lemma loop_throw:
  "logs s = log # rest \<Longrightarrow>
   parseLogs_body decode programId (s\<lparr>logs := rest\<rparr>) log = Inl (err, s') \<Longrightarrow>
   parseLogs_loop decode programId s = (Some err, s')"
  by (simp add: parseLogs_loop.simps[of decode programId s] scanner_next_def)

lemma loop_continue:
  "logs s = log # rest \<Longrightarrow>
   parseLogs_body decode programId (s\<lparr>logs := rest\<rparr>) log = Inr s' \<Longrightarrow>
   parseLogs_loop decode programId s = parseLogs_loop decode programId s'"
  by (simp add: parseLogs_loop.simps[of decode programId s] scanner_next_def)

text \<open>Induction along the rounds of the loop, by the number of unread lines.\<close>

lemma loop_induct [case_names End Throw Continue]:
  assumes "\<And>s. logs s = [] \<Longrightarrow> P s"
    and "\<And>s log rest err s'. logs s = log # rest \<Longrightarrow>
           parseLogs_body decode programId (s\<lparr>logs := rest\<rparr>) log = Inl (err, s') \<Longrightarrow> P s"
    and "\<And>s log rest s'. logs s = log # rest \<Longrightarrow>
           parseLogs_body decode programId (s\<lparr>logs := rest\<rparr>) log = Inr s' \<Longrightarrow> P s' \<Longrightarrow> P s"
  shows "P s"
proof (induction "length (logs s)" arbitrary: s rule: less_induct)
  case less
  show ?case
  proof (cases "logs s")
    case Nil
    then show ?thesis by (rule assms(1))
  next
    case (Cons log rest)
    show ?thesis
    proof (cases "parseLogs_body decode programId (s\<lparr>logs := rest\<rparr>) log")
      case (Inl a)
      then have "parseLogs_body decode programId (s\<lparr>logs := rest\<rparr>) log = Inl (fst a, snd a)"
        by simp
      then show ?thesis by (rule assms(2)[OF Cons])
    next
      case (Inr s')
      from body_logs[OF Inr] Cons have "length (logs s') < length (logs s)" by auto
      then have "P s'" by (rule less.hyps)
      then show ?thesis by (rule assms(3)[OF Cons Inr])
    qed
  qed
qed

lemma map_filter_append:
  "List.map_filter f (xs @ ys) = List.map_filter f xs @ List.map_filter f ys"
  by (simp add: List.map_filter_def)

lemma subseq_filter_tl: "subseq ls (filter P (tl xs)) \<Longrightarrow> subseq ls (filter P xs)"
  by (cases xs) (auto intro: subseq_Cons')

text \<open>
  The payloads decoded by the loop come from a subsequence of the unread lines that start
  with \<open>Program log:\<close>, and the events emitted are the events the coder makes of
  these payloads, in the same order.
\<close>

lemma loop_order:
  "\<exists>ls. subseq ls (filter (prefix ''Program log:'') (logs s)) \<and>
     decoded (snd (parseLogs_loop decode programId s)) =
       decoded s @ map (drop LOG_START_INDEX) ls \<and>
     emitted (snd (parseLogs_loop decode programId s)) =
       emitted s @ List.map_filter decode (map (drop LOG_START_INDEX) ls)"
proof (induction s rule: loop_induct[where decode = decode and programId = programId])
  case (End s)
  then show ?case by (intro exI[of _ "[]"]) (simp add: loop_end List.map_filter_simps)
next
  case (Throw s log rest err s')
  from body_trace[of decode programId "s\<lparr>logs := rest\<rparr>" log s' err] Throw(2)
  obtain xs where xs: "xs = [] \<or> (xs = [log] \<and> prefix ''Program log:'' log)"
    "decoded s' = decoded s @ map (drop LOG_START_INDEX) xs"
    "emitted s' = emitted s @ List.map_filter decode (map (drop LOG_START_INDEX) xs)"
    by auto
  from xs(1) Throw(1) have "subseq xs (filter (prefix ''Program log:'') (logs s))"
    by auto
  with xs(2,3) loop_throw[OF Throw(1,2)] show ?case by (intro exI[of _ xs]) simp
next
  case (Continue s log rest s')
  from body_trace[of decode programId "s\<lparr>logs := rest\<rparr>" log s' undefined] Continue(2)
  obtain xs where xs: "xs = [] \<or> (xs = [log] \<and> prefix ''Program log:'' log)"
    "decoded s' = decoded s @ map (drop LOG_START_INDEX) xs"
    "emitted s' = emitted s @ List.map_filter decode (map (drop LOG_START_INDEX) xs)"
    by auto
  from body_logs[OF Continue(2)] have rest: "logs s' = rest \<or> logs s' = tl rest" by simp
  from Continue(3) obtain ls where ls: "subseq ls (filter (prefix ''Program log:'') (logs s'))"
    "decoded (snd (parseLogs_loop decode programId s')) =
       decoded s' @ map (drop LOG_START_INDEX) ls"
    "emitted (snd (parseLogs_loop decode programId s')) =
       emitted s' @ List.map_filter decode (map (drop LOG_START_INDEX) ls)"
    by blast
  from ls(1) rest have "subseq ls (filter (prefix ''Program log:'') rest)"
    by (auto intro: subseq_filter_tl)
  with xs(1) Continue(1) have "subseq (xs @ ls) (filter (prefix ''Program log:'') (logs s))"
    by auto
  with xs(2,3) ls(2,3) loop_continue[OF Continue(1,2)] show ?case
    by (intro exI[of _ "xs @ ls"]) (simp add: map_filter_append)
qed

text \<open>The loop raises nothing but the failed assertion, and only on an empty stack.\<close>

lemma loop_throws:
  "fst (parseLogs_loop decode programId s) = Some err \<Longrightarrow>
     err = AssertionError \<and> stack (snd (parseLogs_loop decode programId s)) = []"
proof (induction s rule: loop_induct[where decode = decode and programId = programId])
  case (End s)
  then show ?case by (simp add: loop_end)
next
  case (Throw s log rest e s')
  from body_throws[OF Throw(2)] Throw(3) loop_throw[OF Throw(1,2)] show ?case by simp
next
  case (Continue s log rest s')
  then show ?case by (simp add: loop_continue[OF Continue(1,2)])
qed

text \<open>
  A target that is not the placeholder and occurs in no line stays off the stack, so the
  loop decodes and emits nothing.
\<close>

lemma body_foreign:
  assumes "programId \<noteq> ''cpi''" "\<not> sublist programId log" "programId \<notin> set (stack s)"
    and "parseLogs_body decode programId s log = Inr s' \<or>
         parseLogs_body decode programId s log = Inl (err, s')"
  shows "emitted s' = emitted s \<and> decoded s' = decoded s \<and> programId \<notin> set (stack s')"
proof (cases "stack s = []")
  case True
  with assms show ?thesis by (simp add: body_empty_stack)
next
  case False
  with assms(3) have sys: "\<not> (last (stack s) = programId \<and> prefix ''Program log:'' log)"
    using last_in_set[of "stack s"] by auto
  from False sys show ?thesis
  proof (rule body_system[where decode = decode])
    fix q
    assume q: "handleSystemLog programId log = (Some q, False)"
      and b: "parseLogs_body decode programId s log = Inr (s\<lparr>stack := stack s @ [q]\<rparr>)"
    from handleSystemLog_push[OF q] assms(2) have "q = ''cpi''" by simp
    with assms(1,3,4) b show ?thesis by auto
  next
    assume "parseLogs_body decode programId s log =
      Inr (s\<lparr>stack := butlast (stack s), logs := tl (logs s)\<rparr>)"
    with assms(3,4) show ?thesis by (auto dest: in_set_butlastD)
  next
    assume "parseLogs_body decode programId s log = Inr s"
    with assms(3,4) show ?thesis by auto
  qed
qed

lemma loop_foreign:
  assumes "programId \<noteq> ''cpi''"
  shows "list_all (\<lambda>l. \<not> sublist programId l) (logs s) \<Longrightarrow> programId \<notin> set (stack s) \<Longrightarrow>
     emitted (snd (parseLogs_loop decode programId s)) = emitted s \<and>
     decoded (snd (parseLogs_loop decode programId s)) = decoded s"
proof (induction s rule: loop_induct[where decode = decode and programId = programId])
  case (End s)
  then show ?case by (simp add: loop_end)
next
  case (Throw s log rest err s')
  from Throw(1,3) have "\<not> sublist programId log" by simp
  from body_foreign[OF assms this, of "s\<lparr>logs := rest\<rparr>" decode s' err] Throw(2,4)
    loop_throw[OF Throw(1,2)]
  show ?case by simp
next
  case (Continue s log rest s')
  from Continue(1,4) have l: "\<not> sublist programId log"
    and r: "list_all (\<lambda>l. \<not> sublist programId l) rest" by simp_all
  from body_foreign[OF assms l, of "s\<lparr>logs := rest\<rparr>" decode s' undefined] Continue(2,5)
  have s': "emitted s' = emitted s" "decoded s' = decoded s" "programId \<notin> set (stack s')"
    by simp_all
  from body_logs[OF Continue(2)] r have "list_all (\<lambda>l. \<not> sublist programId l) (logs s')"
    by (cases rest) auto
  from Continue(3)[OF this s'(3)] s'(1,2) loop_continue[OF Continue(1,2)]
  show ?case by simp
qed







text \<open>The last line of the stream, read on a non-empty stack, ends the loop without an exception.\<close>

lemma last_line_returns:
  assumes "logs s = [log]" "stack s \<noteq> []"
  shows "\<exists>s'. parseLogs_body decode programId (s\<lparr>logs := []\<rparr>) log = Inr s' \<and>
    parseLogs_loop decode programId s = (None, s') \<and> logs s' = []"
proof -
  from assms(2) have "stack (s\<lparr>logs := []\<rparr>) \<noteq> []" by simp
  from body_returns[OF this, of decode programId log]
  obtain s' where b: "parseLogs_body decode programId (s\<lparr>logs := []\<rparr>) log = Inr s'" by blast
  from body_logs[OF b] have e: "logs s' = []" by auto
  from loop_continue[OF assms(1) b] e have "parseLogs_loop decode programId s = (None, s')"
    by (simp add: loop_end)
  with b e show ?thesis by blast
qed

section \<open>The whole run\<close>

text \<open>The definitions a concrete run is evaluated with.\<close>

lemmas parser_defs =
  parseLogs_def scanner_next_def ExecutionContext_def exec_invoke_def line_terminator_def
  dots_def parseLogs_body_def handleLog_def handleProgramLog_def handleSystemLog_def
  split_first_def program_def pop_def push_def match_consumed_def LOG_START_INDEX_def
  Let_def sublist_code(3) parseLogs_loop.simps

text \<open>
  A line whose head is a completion marker or an invocation of the target does not start
  with \<open>Program log:\<close>, so it reaches the system classification whatever is on top of
  the stack.
\<close>

lemma not_own_consumed:
  assumes "match_consumed (split_first log)"
  shows "\<not> (last stk = programId \<and> prefix ''Program log:'' log)"
  using assms program_log_head[of log] not_consumed_program_log by auto

lemma not_own_target_invoke:
  assumes "prefix (''Program '' @ programId @ '' invoke'') (split_first log)"
  shows "\<not> (last stk = programId \<and> prefix ''Program log:'' log)"
  using assms program_log_head[of log] by (auto dest: prefix_length_le)

text \<open>How \<open>parseLogs\<close> begins: the constructor throws, or the loop starts on a one-element stack.\<close>

lemma parseLogs_fails:
  assumes "input = [] \<or> exec_invoke (hd input) = None"
  shows "parseLogs decode programId input =
    (Some TypeError, \<lparr>logs = tl input, stack = [], emitted = [], decoded = []\<rparr>)"
proof (cases input)
  case Nil
  then show ?thesis
    by (simp add: parseLogs_def scanner_next_def ExecutionContext_def exec_invoke_def)
next
  case (Cons l rest)
  with assms show ?thesis
    by (simp add: parseLogs_def scanner_next_def ExecutionContext_def)
qed

lemma parseLogs_starts:
  assumes "input = l # rest" "exec_invoke l = Some x"
  shows "parseLogs decode programId input =
    parseLogs_loop decode programId \<lparr>logs = rest, stack = [x], emitted = [], decoded = []\<rparr>"
  using assms by (simp add: parseLogs_def scanner_next_def ExecutionContext_def)

lemma parseLogs_cases:
  obtains (fails) "input = [] \<or> exec_invoke (hd input) = None"
  | (starts) l rest x where "input = l # rest" "exec_invoke l = Some x"
  by (cases input; cases "exec_invoke (hd input)") auto

section \<open>The claims\<close>

subsection \<open>C1: the execution stack and the pop that empties it\<close>




subsection \<open>C2: a completion line pops and skips one line\<close>

text \<open>
  C2, amended. For every line read while the stack is not empty whose head (the line up
  to its first colon) does not contain \<open>invoke\<close> and matches
  \<open>Program (.*) consumed .*\<close>, the round pops the stack and drops the line that
  follows from the scanner unread, whatever that line is; the loop goes on from there.
\<close>

theorem consumed_line_pops_and_skips:
  assumes "logs s = log # rest" "stack s \<noteq> []"
    "\<not> sublist ''invoke'' (split_first log)" "match_consumed (split_first log)"
  shows "parseLogs_body decode programId (s\<lparr>logs := rest\<rparr>) log =
           Inr (s\<lparr>stack := butlast (stack s), logs := tl rest\<rparr>) \<and>
         parseLogs_loop decode programId s =
           parseLogs_loop decode programId (s\<lparr>stack := butlast (stack s), logs := tl rest\<rparr>)"
proof -
  have sys: "\<not> (last (stack (s\<lparr>logs := rest\<rparr>)) = programId \<and> prefix ''Program log:'' log)"
    using assms(4) by (rule not_own_consumed)
  from assms(2) have ne: "stack (s\<lparr>logs := rest\<rparr>) \<noteq> []" by simp
  from body_pop[OF ne sys handleSystemLog_pop[OF assms(3,4)], of decode]
  have b: "parseLogs_body decode programId (s\<lparr>logs := rest\<rparr>) log =
           Inr (s\<lparr>stack := butlast (stack s), logs := tl rest\<rparr>)" by simp
  from b loop_continue[OF assms(1) b] show ?thesis by simp
qed

theorem consumed_line_pops_and_skips_witness:
  "\<not> sublist ''invoke'' (split_first ''Program T2 consumed 50 units'') \<and>
   match_consumed (split_first ''Program T2 consumed 50 units'') \<and>
   parseLogs_body Some ''T1''
     \<lparr>logs = [''Program T2 invoke [2]'', ''Program log: hello''], stack = [''T1'', ''cpi''],
      emitted = [], decoded = []\<rparr> ''Program T2 consumed 50 units'' =
     Inr \<lparr>logs = [''Program log: hello''], stack = [''T1''], emitted = [], decoded = []\<rparr> \<and>
   parseLogs_loop Some ''T1''
     \<lparr>logs = [''Program T2 consumed 50 units'', ''Program T2 invoke [2]'', ''Program log: hello''],
      stack = [''T1'', ''cpi''], emitted = [], decoded = []\<rparr> =
     (None, \<lparr>logs = [], stack = [''T1''], emitted = [''hello''], decoded = [''hello'']\<rparr>)"
  using consumed_line_pops_and_skips[where decode = Some and programId = "''T1''"
      and s = "\<lparr>logs = [''Program T2 consumed 50 units'', ''Program T2 invoke [2]'',
                        ''Program log: hello''],
                stack = [''T1'', ''cpi''], emitted = [], decoded = []\<rparr>"
      and log = "''Program T2 consumed 50 units''"
      and rest = "[''Program T2 invoke [2]'', ''Program log: hello'']"]
  by (simp add: parser_defs)

text \<open>
  C2 as stated fails: a head that matches the completion pattern and contains
  \<open>invoke\<close> is taken by the invocation rule, which is checked first. The stack grows,
  nothing is popped and the next line is read and classified.
\<close>

theorem consumed_after_invoke_counterexample:
  "match_consumed (split_first ''Program Y invoke consumed 5 units'') \<and>
   parseLogs Some ''T1''
     [''Program X invoke [1]'', ''Program Y invoke consumed 5 units'', ''Program T1 invoke [2]''] =
     (None, \<lparr>logs = [], stack = [''X'', ''cpi'', ''T1''], emitted = [], decoded = []\<rparr>)"
  by (simp add: parser_defs)

subsection \<open>C3: the first system rule\<close>

text \<open>
  C3, amended. For every line read while the stack is not empty whose head starts with
  \<open>Program T invoke\<close>, where \<open>T\<close> is the (non-empty) target ProgramId and not the
  current top of the stack, the system classification answers with the target and the
  round pushes the target; this rule is checked first, before the rule for any other
  \<open>invoke\<close>.
\<close>

theorem target_invoke_pushes_target:
  assumes "programId \<noteq> []" "stack s \<noteq> []"
    "prefix (''Program '' @ programId @ '' invoke'') (split_first log)"
  shows "handleSystemLog programId log = (Some programId, False) \<and>
         parseLogs_body decode programId s log = Inr (s\<lparr>stack := stack s @ [programId]\<rparr>)"
proof -
  from assms(3) have h: "handleSystemLog programId log = (Some programId, False)"
    by (simp add: handleSystemLog_def)
  have sys: "\<not> (last (stack s) = programId \<and> prefix ''Program log:'' log)"
    using assms(3) by (rule not_own_target_invoke)
  from h body_push[OF assms(2) sys h assms(1)] show ?thesis by simp
qed

theorem target_invoke_pushes_target_witness:
  "prefix (''Program '' @ ''T1'' @ '' invoke'') (split_first ''Program T1 invoke [2]'') \<and>
   handleSystemLog ''T1'' ''Program T1 invoke [2]'' = (Some ''T1'', False) \<and>
   parseLogs_body Some ''T1'' \<lparr>logs = [], stack = [''X''], emitted = [], decoded = []\<rparr>
     ''Program T1 invoke [2]'' =
     Inr \<lparr>logs = [], stack = [''X'', ''T1''], emitted = [], decoded = []\<rparr>"
  using target_invoke_pushes_target[where programId = "''T1''" and decode = Some
      and s = "\<lparr>logs = [], stack = [''X''], emitted = [], decoded = []\<rparr>"
      and log = "''Program T1 invoke [2]''"]
  by (simp add: parser_defs)

text \<open>
  C3 as stated fails: with \<open>X\<close> on top of the stack and the target \<open>T1\<close>, the line
  \<open>Program X invoke [2]\<close> names the current executor, and the placeholder is pushed, not
  the target.
\<close>

theorem executor_invoke_counterexample:
  "prefix (''Program '' @ ''X'' @ '' invoke'') (split_first ''Program X invoke [2]'') \<and>
   parseLogs Some ''T1'' [''Program X invoke [1]'', ''Program X invoke [2]''] =
     (None, \<lparr>logs = [], stack = [''X'', ''cpi''], emitted = [], decoded = []\<rparr>)"
  by (simp add: parser_defs)

subsection \<open>C4: the prefix of a program log line\<close>

text \<open>
  C4, at the input where the code departs from it. The line \<open>Program log:Xabc\<close> does not
  start with \<open>Program log: \<close> (with the trailing space), yet \<open>handleProgramLog\<close> takes
  it for a program log: the test is for \<open>Program log:\<close> without the space, while
  \<open>LOG_START_INDEX\<close> is the length with the space. Thirteen characters are dropped,
  the \<open>X\<close> among them, and \<open>abc\<close> is passed to the coder.
\<close>

theorem program_log_without_space_is_decoded:
  "\<not> prefix ''Program log: '' ''Program log:Xabc'' \<and>
   handleProgramLog decode programId ''Program log:Xabc'' calls =
     ((decode ''abc'', None, False), calls @ [''abc'']) \<and>
   parseLogs Some ''T1'' [''Program T1 invoke [1]'', ''Program log:Xabc''] =
     (None, \<lparr>logs = [], stack = [''T1''], emitted = [''abc''], decoded = [''abc'']\<rparr>)"
  by (simp add: parser_defs)

subsection \<open>C5: the placeholder frame\<close>

text \<open>
  C5, amended. For every target ProgramId other than the placeholder's literal \<open>cpi\<close>:
  while a placeholder frame is on top of the stack, a line is classified by the system
  rules, is not passed to the coder and emits nothing.
\<close>

theorem placeholder_frame_is_not_target:
  assumes "programId \<noteq> ''cpi''" "stack s = stk @ [''cpi'']"
  shows "handleLog decode programId (stack s) log calls =
           Inr ((None, handleSystemLog programId log), calls) \<and>
         (\<exists>s'. parseLogs_body decode programId s log = Inr s' \<and>
               emitted s' = emitted s \<and> decoded s' = decoded s)"
proof -
  from assms have ne: "stack s \<noteq> []"
    and sys: "\<not> (last (stack s) = programId \<and> prefix ''Program log:'' log)" by auto
  have "\<exists>s'. parseLogs_body decode programId s log = Inr s' \<and>
               emitted s' = emitted s \<and> decoded s' = decoded s"
    by (rule body_system[OF ne sys, of decode]) auto
  with handleLog_system[OF ne sys] show ?thesis by simp
qed

theorem placeholder_frame_is_not_target_witness:
  "''T1'' \<noteq> ''cpi'' \<and>
   handleLog Some ''T1'' [''X'', ''cpi''] ''Program log: hello'' [] =
     Inr ((None, None, False), []) \<and>
   parseLogs_body Some ''T1'' \<lparr>logs = [], stack = [''X'', ''cpi''], emitted = [], decoded = []\<rparr>
     ''Program log: hello'' =
     Inr \<lparr>logs = [], stack = [''X'', ''cpi''], emitted = [], decoded = []\<rparr>"
  using placeholder_frame_is_not_target[where programId = "''T1''" and decode = Some
      and s = "\<lparr>logs = [], stack = [''X'', ''cpi''], emitted = [], decoded = []\<rparr>"
      and stk = "[''X'']" and log = "''Program log: hello''" and calls = "[]"]
  by (simp add: parser_defs)

text \<open>
  C5 as stated fails: the top of the stack is compared with the target as a string, so for
  the target \<open>cpi\<close> a line under a placeholder frame is decoded and its event emitted.
\<close>

theorem placeholder_equals_target_counterexample:
  "parseLogs Some ''cpi''
     [''Program X invoke [1]'', ''Program Y invoke [2]'', ''Program log: hello''] =
     (None, \<lparr>logs = [], stack = [''X'', ''cpi''], emitted = [''hello''],
            decoded = [''hello'']\<rparr>)"
  by (simp add: parser_defs)

subsection \<open>C6: the events come in the order of their lines\<close>

text \<open>
  C6. For every input, the payloads passed to the coder are those of a subsequence \<open>ls\<close>
  of the lines after the first, each payload its line without the first
  \<open>LOG_START_INDEX\<close> characters, and the events emitted are exactly the events the
  coder returns for these payloads, in the same order: a line gives at most one event, and
  no event comes before the event of an earlier line.
\<close>

theorem events_in_line_order:
  "\<exists>ls. subseq ls (filter (prefix ''Program log:'') (tl input)) \<and>
     decoded (snd (parseLogs decode programId input)) = map (drop LOG_START_INDEX) ls \<and>
     emitted (snd (parseLogs decode programId input)) =
       List.map_filter decode (decoded (snd (parseLogs decode programId input)))"
proof (cases input rule: parseLogs_cases)
  case fails
  then show ?thesis
    by (intro exI[of _ "[]"]) (simp add: parseLogs_fails List.map_filter_simps)
next
  case (starts l rest x)
  from loop_order[of "\<lparr>logs = rest, stack = [x], emitted = [], decoded = []\<rparr>" decode programId]
    parseLogs_starts[OF starts, of decode programId] starts(1)
  show ?thesis by auto
qed

theorem events_in_line_order_witness:
  "\<exists>ls. subseq ls (filter (prefix ''Program log:'')
            (tl [''Program T1 invoke [1]'', ''Program log: a'', ''Program T2 invoke [2]'',
                 ''Program log: hidden'', ''Program T2 consumed 5 units'', ''Program T2 success'',
                 ''Program log: b''])) \<and>
     [''a'', ''b''] = map (drop LOG_START_INDEX) ls"
  using events_in_line_order[where decode = Some and programId = "''T1''"
      and input = "[''Program T1 invoke [1]'', ''Program log: a'', ''Program T2 invoke [2]'',
                 ''Program log: hidden'', ''Program T2 consumed 5 units'', ''Program T2 success'',
                 ''Program log: b'']"]
  by (simp add: parser_defs)

subsection \<open>C7: events come from lines of the target only\<close>

text \<open>
  C7, amended. A round emits an event only when the target is on top of the stack. For
  every target ProgramId other than the placeholder's literal \<open>cpi\<close> and every input in
  which the target occurs in no line, nothing is passed to the coder and nothing is
  emitted.
\<close>

theorem events_only_under_target:
  "(parseLogs_body decode programId s log = Inr s' \<longrightarrow> emitted s' \<noteq> emitted s \<longrightarrow>
      stack s \<noteq> [] \<and> last (stack s) = programId) \<and>
   (programId \<noteq> ''cpi'' \<longrightarrow> list_all (\<lambda>l. \<not> sublist programId l) input \<longrightarrow>
      emitted (snd (parseLogs decode programId input)) = [] \<and>
      decoded (snd (parseLogs decode programId input)) = [])"
proof (intro conjI impI)
  assume b: "parseLogs_body decode programId s log = Inr s'" and e: "emitted s' \<noteq> emitted s"
  from body_trace[of decode programId s log s' undefined] b e
  show "stack s \<noteq> []" "last (stack s) = programId"
    by (auto simp: List.map_filter_simps)
next
  assume t: "programId \<noteq> ''cpi''" and a: "list_all (\<lambda>l. \<not> sublist programId l) input"
  have "emitted (snd (parseLogs decode programId input)) = [] \<and>
      decoded (snd (parseLogs decode programId input)) = []"
  proof (cases input rule: parseLogs_cases)
    case fails
    then show ?thesis by (simp add: parseLogs_fails)
  next
    case (starts l rest x)
    let ?s = "\<lparr>logs = rest, stack = [x], emitted = [], decoded = []\<rparr> :: 'a parser"
    from exec_invoke_sublist[OF starts(2)] a starts(1) have "x \<noteq> programId" by auto
    with loop_foreign[OF t, of ?s decode] a starts(1) parseLogs_starts[OF starts, of decode programId]
    show ?thesis by simp
  qed
  then show "emitted (snd (parseLogs decode programId input)) = []"
    "decoded (snd (parseLogs decode programId input)) = []" by simp_all
qed

theorem events_only_under_target_witness:
  "parseLogs_body Some ''T1'' \<lparr>logs = [], stack = [''X'', ''T1''], emitted = [], decoded = []\<rparr>
     ''Program log: hello'' =
     Inr \<lparr>logs = [], stack = [''X'', ''T1''], emitted = [''hello''], decoded = [''hello'']\<rparr> \<and>
   last [''X'', ''T1''] = ''T1'' \<and> ''T1'' \<noteq> ''cpi'' \<and>
   list_all (\<lambda>l. \<not> sublist ''T1'' l)
     [''Program X invoke [1]'', ''Program Y invoke [2]'', ''Program log: hello''] \<and>
   emitted (snd (parseLogs Some ''T1''
     [''Program X invoke [1]'', ''Program Y invoke [2]'', ''Program log: hello''])) = [] \<and>
   decoded (snd (parseLogs Some ''T1''
     [''Program X invoke [1]'', ''Program Y invoke [2]'', ''Program log: hello''])) = []"
  using events_only_under_target[where decode = Some and programId = "''T1''"
      and input = "[''Program X invoke [1]'', ''Program Y invoke [2]'', ''Program log: hello'']"
      and s = "\<lparr>logs = [], stack = [''X'', ''T1''], emitted = [], decoded = []\<rparr>"
      and log = "''Program log: hello''"
      and s' = "\<lparr>logs = [], stack = [''X'', ''T1''], emitted = [''hello''],
                 decoded = [''hello'']\<rparr>"]
  by (simp add: parser_defs)

text \<open>
  C7 as stated fails for the target \<open>cpi\<close>: it occurs in no line of the input below, the
  placeholder pushed for \<open>Program Y invoke [2]\<close> equals it, and the next line emits an
  event.
\<close>

theorem absent_placeholder_target_counterexample:
  "\<not> sublist ''cpi'' ''Program X invoke [1]'' \<and> \<not> sublist ''cpi'' ''Program Y invoke [2]'' \<and>
   \<not> sublist ''cpi'' ''Program log: hello'' \<and>
   emitted (snd (parseLogs Some ''cpi''
     [''Program X invoke [1]'', ''Program Y invoke [2]'', ''Program log: hello''])) = [''hello'']"
  by (simp add: parser_defs)

subsection \<open>C8: the first line\<close>

text \<open>
  C8. \<open>parseLogs\<close> ends with the \<open>TypeError\<close> of the constructor exactly when the input
  is empty or its first line does not match \<open>^Program (.*) invoke.*$\<close>; no further line
  has been read then, and nothing decoded or emitted. When the first line matches with
  group \<open>x\<close>, the stack starts as \<open>[x]\<close> and the loop runs on the rest of the input.
\<close>

theorem malformed_first_line:
  "(fst (parseLogs decode programId input) = Some TypeError \<longleftrightarrow>
      input = [] \<or>
      \<not> (dots (hd input) \<and> (\<exists>x t. hd input = ''Program '' @ x @ '' invoke'' @ t))) \<and>
   (fst (parseLogs decode programId input) = Some TypeError \<longrightarrow>
      snd (parseLogs decode programId input) =
        \<lparr>logs = tl input, stack = [], emitted = [], decoded = []\<rparr>) \<and>
   (input = l # rest \<longrightarrow> exec_invoke l = Some x \<longrightarrow>
      (\<exists>t. l = ''Program '' @ x @ '' invoke'' @ t) \<and>
      ExecutionContext (fst (scanner_next input)) = Inr [x] \<and>
      parseLogs decode programId input =
        parseLogs_loop decode programId
          \<lparr>logs = rest, stack = [x], emitted = [], decoded = []\<rparr>)"
proof -
  let ?m = "dots (hd input) \<and> (\<exists>x t. hd input = ''Program '' @ x @ '' invoke'' @ t)"
  have first: "(fst (parseLogs decode programId input) = Some TypeError \<longleftrightarrow> input = [] \<or> \<not> ?m) \<and>
    (fst (parseLogs decode programId input) = Some TypeError \<longrightarrow>
      snd (parseLogs decode programId input) =
        \<lparr>logs = tl input, stack = [], emitted = [], decoded = []\<rparr>)"
  proof (cases input rule: parseLogs_cases)
    case fails
    then have "input = [] \<or> \<not> ?m"
      using exec_invoke_matches[of "hd input"] by blast
    with parseLogs_fails[OF fails, of decode programId] show ?thesis by simp
  next
    case (starts l' rest' x')
    let ?s = "\<lparr>logs = rest', stack = [x'], emitted = [], decoded = []\<rparr> :: 'a parser"
    have run: "parseLogs decode programId input = parseLogs_loop decode programId ?s"
      using starts by (rule parseLogs_starts)
    have "fst (parseLogs_loop decode programId ?s) \<noteq> Some TypeError"
      using loop_throws[of decode programId ?s TypeError] by auto
    with run have ok: "fst (parseLogs decode programId input) \<noteq> Some TypeError" by simp
    from starts(2) have "exec_invoke l' \<noteq> None" by simp
    then have "dots l' \<and> (\<exists>x t. l' = ''Program '' @ x @ '' invoke'' @ t)"
      by (simp only: exec_invoke_matches)
    with starts(1) have "input \<noteq> [] \<and> ?m" by simp
    with ok show ?thesis by blast
  qed
  have second: "(\<exists>t. l = ''Program '' @ x @ '' invoke'' @ t) \<and>
      ExecutionContext (fst (scanner_next input)) = Inr [x] \<and>
      parseLogs decode programId input =
        parseLogs_loop decode programId
          \<lparr>logs = rest, stack = [x], emitted = [], decoded = []\<rparr>"
    if i: "input = l # rest" and e: "exec_invoke l = Some x"
  proof (intro conjI)
    from exec_invoke_Some[OF e] show "\<exists>t. l = ''Program '' @ x @ '' invoke'' @ t" by blast
    from i e show "ExecutionContext (fst (scanner_next input)) = Inr [x]"
      by (simp add: scanner_next_def ExecutionContext_def)
    from i e show "parseLogs decode programId input =
        parseLogs_loop decode programId
          \<lparr>logs = rest, stack = [x], emitted = [], decoded = []\<rparr>"
      by (rule parseLogs_starts)
  qed
  from first second show ?thesis by blast
qed

theorem malformed_first_line_witness:
  "parseLogs Some ''T1'' [] =
     (Some TypeError, \<lparr>logs = [], stack = [], emitted = [], decoded = []\<rparr>) \<and>
   parseLogs Some ''T1'' [''Transfer: insufficient lamports'', ''Program log: hello''] =
     (Some TypeError, \<lparr>logs = [''Program log: hello''], stack = [], emitted = [],
                      decoded = []\<rparr>) \<and>
   ExecutionContext (Some ''Program T1 invoke [1]'') = Inr [''T1''] \<and>
   parseLogs Some ''T1'' [''Program T1 invoke [1]'', ''Program log: hello''] =
     parseLogs_loop Some ''T1''
       \<lparr>logs = [''Program log: hello''], stack = [''T1''], emitted = [], decoded = []\<rparr>"
  using malformed_first_line[where decode = Some and programId = "''T1''" and input = "[]"]
    malformed_first_line[where decode = Some and programId = "''T1''"
      and input = "[''Transfer: insufficient lamports'', ''Program log: hello'']"]
    malformed_first_line[where decode = Some and programId = "''T1''"
      and input = "[''Program T1 invoke [1]'', ''Program log: hello'']"
      and l = "''Program T1 invoke [1]''" and rest = "[''Program log: hello'']" and x = "''T1''"]
  by (simp add: parser_defs)

subsection \<open>C9: frames left open at the end of the stream\<close>




subsection \<open>C10: the discard after the last line\<close>

text \<open>
  C10, amended. \<open>next()\<close> on an exhausted scanner returns \<open>null\<close> and leaves it
  exhausted, so it does the same on every later call. When the last line of the stream
  has a head that matches the completion pattern and is read while the stack is not empty,
  the loop ends without an exception, with nothing decoded or emitted; when moreover the
  head does not contain \<open>invoke\<close>, the round pops the stack and the discard reads
  nothing.
\<close>

theorem discard_past_end_of_stream:
  "scanner_next [] = (None, []) \<and>
   scanner_next (snd (scanner_next [])) = (None, []) \<and>
   (logs s = [log] \<longrightarrow> stack s \<noteq> [] \<longrightarrow> match_consumed (split_first log) \<longrightarrow>
      fst (parseLogs_loop decode programId s) = None \<and>
      logs (snd (parseLogs_loop decode programId s)) = [] \<and>
      emitted (snd (parseLogs_loop decode programId s)) = emitted s \<and>
      decoded (snd (parseLogs_loop decode programId s)) = decoded s \<and>
      (\<not> sublist ''invoke'' (split_first log) \<longrightarrow>
         parseLogs_body decode programId (s\<lparr>logs := []\<rparr>) log =
           Inr (s\<lparr>stack := butlast (stack s), logs := []\<rparr>) \<and>
         parseLogs_loop decode programId s =
           (None, s\<lparr>stack := butlast (stack s), logs := []\<rparr>)))"
proof -
  have scan: "scanner_next [] = (None, [])" "scanner_next (snd (scanner_next [])) = (None, [])"
    by (simp_all add: scanner_next_def)
  have last: "fst (parseLogs_loop decode programId s) = None \<and>
      logs (snd (parseLogs_loop decode programId s)) = [] \<and>
      emitted (snd (parseLogs_loop decode programId s)) = emitted s \<and>
      decoded (snd (parseLogs_loop decode programId s)) = decoded s"
    if a: "logs s = [log]" "stack s \<noteq> []" "match_consumed (split_first log)"
  proof -
    from last_line_returns[OF a(1,2), of decode programId] obtain s'
      where s': "parseLogs_body decode programId (s\<lparr>logs := []\<rparr>) log = Inr s'"
        "parseLogs_loop decode programId s = (None, s')" "logs s' = []" by blast
    have sys: "\<not> (last (stack (s\<lparr>logs := []\<rparr>)) = programId \<and> prefix ''Program log:'' log)"
      using a(3) by (rule not_own_consumed)
    from body_trace[of decode programId "s\<lparr>logs := []\<rparr>" log s' undefined] s'(1) sys
    have "emitted s' = emitted s \<and> decoded s' = decoded s"
      by auto
    with s'(2,3) show ?thesis by simp
  qed
  have popped: "parseLogs_body decode programId (s\<lparr>logs := []\<rparr>) log =
           Inr (s\<lparr>stack := butlast (stack s), logs := []\<rparr>) \<and>
         parseLogs_loop decode programId s =
           (None, s\<lparr>stack := butlast (stack s), logs := []\<rparr>)"
    if a: "logs s = [log]" "stack s \<noteq> []" "match_consumed (split_first log)"
      "\<not> sublist ''invoke'' (split_first log)"
  proof -
    have sys: "\<not> (last (stack (s\<lparr>logs := []\<rparr>)) = programId \<and> prefix ''Program log:'' log)"
      using a(3) by (rule not_own_consumed)
    from a(2) have ne: "stack (s\<lparr>logs := []\<rparr>) \<noteq> []" by simp
    from body_pop[OF ne sys handleSystemLog_pop[OF a(4,3)], of decode]
    have b: "parseLogs_body decode programId (s\<lparr>logs := []\<rparr>) log =
        Inr (s\<lparr>stack := butlast (stack s), logs := []\<rparr>)" by simp
    from loop_continue[OF a(1) b] b show ?thesis by (simp add: loop_end)
  qed
  from scan last popped show ?thesis by blast
qed

theorem discard_past_end_of_stream_witness:
  "\<not> sublist ''invoke'' (split_first ''Program T1 consumed 100 units'') \<and>
   match_consumed (split_first ''Program T1 consumed 100 units'') \<and>
   parseLogs_loop Some ''T1''
     \<lparr>logs = [''Program T1 consumed 100 units''], stack = [''T1''], emitted = [],
      decoded = []\<rparr> =
     (None, \<lparr>logs = [], stack = [], emitted = [], decoded = []\<rparr>)"
  using discard_past_end_of_stream[where decode = Some and programId = "''T1''"
      and s = "\<lparr>logs = [''Program T1 consumed 100 units''], stack = [''T1''], emitted = [],
                 decoded = []\<rparr>" and log = "''Program T1 consumed 100 units''"]
  by (simp add: parser_defs)

text \<open>
  C10 as stated fails: a completion line that is the last line of the stream and is read
  on the empty stack raises the failed assertion.
\<close>

theorem last_consumed_on_empty_stack_counterexample:
  "match_consumed (split_first ''Program T1 consumed 20 units'') \<and>
   handleSystemLog ''T1'' ''Program T1 consumed 20 units'' = (None, True) \<and>
   parseLogs Some ''T1''
     [''Program T1 invoke [1]'', ''Program T1 consumed 10 units'', ''Program T1 success'',
      ''Program T1 consumed 20 units''] =
     (Some AssertionError, \<lparr>logs = [], stack = [], emitted = [], decoded = []\<rparr>)"
  by (simp add: parser_defs)

end
